theory Spec2Isabelle
  imports Complex_Main
begin

unbundle bit_operations_syntax

section \<open>The fixreal module: fixed point / floating point conversion\<close>

text \<open>
  This theory embeds \<^verbatim>\<open>fixreal.py\<close>. Conventions of the embedding:
  \<^item> Python integers are \<open>int\<close>; the bit operators \<^verbatim>\<open>&\<close>, \<^verbatim>\<open>>>\<close>, \<^verbatim>\<open><<\<close> are \<open>AND\<close>,
    \<open>drop_bit\<close>, \<open>push_bit\<close> on \<open>int\<close> (two's complement on negative numbers, as in Python).
  \<^item> \<open>bits\<close> and \<open>bin_point\<close> are natural numbers: a descriptor counts bits, and
    \<^verbatim>\<open>conv_from_name\<close> only produces such values (\<^verbatim>\<open>\d+\<close>). Negative arguments are outside
    the model.
  \<^item> Python floats are modelled by \<open>real\<close>, that is by exact arithmetic. Every number a
    descriptor with \<open>bin_point < 1024\<close> holds is a power of two or an integer that a double
    holds exactly, and for \<open>bin_point < bits \<le> 32\<close> and \<open>scaling = 1\<close> every intermediate value of
    \<^verbatim>\<open>fix2real\<close>, and of \<^verbatim>\<open>real2fix\<close> on a decoded value, is an integer multiple of \<open>dec_step\<close>
    below \<open>2 ^ 32\<close> in magnitude, so that the double computation is the exact one. The number
    given to \<^verbatim>\<open>real2fix\<close> is a float. Rounding of other inputs, the finite range of doubles,
    infinities and NaN are not modelled.
  \<^item> Exceptions are values of type \<open>error\<close>; a function that can raise returns
    \<open>error + 'a\<close> with \<open>Inl\<close> for the exception.
\<close>

subsection \<open>Exceptions\<close>

text \<open>
  The module has one exception class, \<^verbatim>\<open>ConversionError\<close>, raised at three places with three
  messages; the three constructors below keep the places apart and carry the value the message is
  built from. \<open>StructError\<close> is \<^verbatim>\<open>struct.error\<close>; \<open>ZeroDivisionError\<close> and \<open>OverflowError\<close> are
  raised by Python's arithmetic.
\<close>

datatype error =
    ConversionError_bits nat
  | ConversionError_name string
  | ConversionError_unsigned real
  | StructError
  | ZeroDivisionError
  | OverflowError

subsection \<open>The conversion structure\<close>

text \<open>The format characters of the \<^verbatim>\<open>struct\<close> module that \<^verbatim>\<open>get_conv\<close> stores under \<^verbatim>\<open>"fmt"\<close>.\<close>

datatype struct_code = Fmt_B | Fmt_H | Fmt_I

text \<open>
  The dictionary \<^verbatim>\<open>conversion_t\<close>. \<^verbatim>\<open>get_conv\<close> fills the first seven keys itself and the last
  four through \<^verbatim>\<open>_get_signed_params\<close> or \<^verbatim>\<open>_get_unsigned_params\<close>: the record \<open>conv_base\<close> is
  the dictionary before that call, \<open>conv\<close> the dictionary after it.
\<close>

record conv_base =
  bits :: nat
  bin_point :: nat
  signed :: bool
  scaling :: real
  dec_step :: real
  dec_mask :: int
  fmt :: struct_code

record conv = conv_base +
  sign_mask :: int
  int_min :: real
  int_mask :: int
  int_max :: int

text \<open>\<^verbatim>\<open>sum([2 ** i for i in range(a, b)])\<close>; the range is empty when \<open>b \<le> a\<close>.\<close>

definition sum_pow2 :: "nat \<Rightarrow> nat \<Rightarrow> int" where
  "sum_pow2 a b = sum_list (map (\<lambda>i. 2 ^ i) [a..<b])"

text \<open>
  \<^verbatim>\<open>_get_unsigned_params\<close>. \<^verbatim>\<open>range(bits - bin_point)\<close> is empty when the difference is
  negative, which is what the truncating subtraction of \<open>nat\<close> gives.
\<close>

definition get_unsigned_params :: "conv_base \<Rightarrow> conv" where
  "get_unsigned_params c =
     \<lparr>bits = bits c, bin_point = bin_point c, signed = signed c, scaling = scaling c,
      dec_step = dec_step c, dec_mask = dec_mask c, fmt = fmt c,
      sign_mask = 0,
      int_min = 0,
      int_mask = sum_pow2 (bin_point c) (bits c),
      int_max = sum_pow2 0 (bits c - bin_point c)\<rparr>"

text \<open>
  \<^verbatim>\<open>_get_signed_params\<close>. It is only called by \<^verbatim>\<open>get_conv\<close> after the width check, so
  \<open>bits c\<close> is 8, 16 or 32 and \<open>bits c - 1\<close> is the Python difference. The exponent of
  \<^verbatim>\<open>int_min\<close> is negative when \<open>bin_point \<ge> bits\<close>; Python then computes a float power, here
  \<open>powi\<close> on \<open>real\<close>.
\<close>

definition get_signed_params :: "conv_base \<Rightarrow> conv" where
  "get_signed_params c =
     \<lparr>bits = bits c, bin_point = bin_point c, signed = signed c, scaling = scaling c,
      dec_step = dec_step c, dec_mask = dec_mask c, fmt = fmt c,
      sign_mask = 2 ^ (bits c - 1),
      int_min = - 1 * (2 powi (int (bits c) - 1 - int (bin_point c))),
      int_mask = sum_pow2 (bin_point c) (bits c - 1),
      int_max = sum_pow2 0 (bits c - bin_point c - 1)\<rparr>"

text \<open>
  \<^verbatim>\<open>get_conv(bits, bin_point, signed=False, scaling=1.0)\<close>. The statements run in the source's
  order: \<^verbatim>\<open>1.0 / (2 ** bin_point)\<close> converts the integer \<open>2 ^ bin_point\<close> to a float, which raises
  \<^verbatim>\<open>OverflowError\<close> from \<open>2 ^ 1024\<close> on, before the width is looked at; then the width check
  raises \<^verbatim>\<open>ConversionError\<close>; then the sign-dependent keys are filled.
\<close>

definition get_conv :: "nat \<Rightarrow> nat \<Rightarrow> bool \<Rightarrow> real \<Rightarrow> error + conv" where
  "get_conv nbits npoint sg scal =
     (if 1024 \<le> npoint then Inl OverflowError
      else
        (case (if nbits = 8 then Some Fmt_B
               else if nbits = 16 then Some Fmt_H
               else if nbits = 32 then Some Fmt_I
               else None) of
           None \<Rightarrow> Inl (ConversionError_bits nbits)
         | Some f \<Rightarrow>
             (let c = \<lparr>bits = nbits, bin_point = npoint, signed = sg, scaling = scal,
                       dec_step = 1 / 2 ^ npoint,
                       dec_mask = sum_pow2 0 npoint,
                       fmt = f\<rparr>
              in Inr (if sg then get_signed_params c else get_unsigned_params c))))"

subsection \<open>Parsing a type name\<close>

text \<open>
  \<^verbatim>\<open>re.match(r"^(?P<signed>u?fix)_(?P<bits>\d+)_(?P<binary>\d+)", name, flags = re.I)\<close> on a
  byte string: letters match in either case, \<^verbatim>\<open>\d\<close> is an ASCII digit, and the match need not
  reach the end of the name. Both \<^verbatim>\<open>\d+\<close> are greedy and are followed by a non-digit or by the
  end of the pattern, so the longest run of digits is the only candidate.
\<close>

definition to_lower :: "char \<Rightarrow> char" where
  "to_lower c =
     (case map_of (zip ''ABCDEFGHIJKLMNOPQRSTUVWXYZ'' ''abcdefghijklmnopqrstuvwxyz'') c of
        Some l \<Rightarrow> l
      | None \<Rightarrow> c)"

definition is_digit :: "char \<Rightarrow> bool" where
  "is_digit c = ((48::nat) \<le> of_char c \<and> of_char c \<le> (57::nat))"

text \<open>A lower-case literal matched without regard to case: the matched text and the rest.\<close>

fun match_lit :: "string \<Rightarrow> string \<Rightarrow> (string \<times> string) option" where
  "match_lit [] s = Some ([], s)"
| "match_lit (p # ps) [] = None"
| "match_lit (p # ps) (c # cs) =
     (if to_lower c = p
      then (case match_lit ps cs of None \<Rightarrow> None | Some (m, r) \<Rightarrow> Some (c # m, r))
      else None)"

text \<open>The groups \<^verbatim>\<open>signed\<close>, \<^verbatim>\<open>bits\<close>, \<^verbatim>\<open>binary\<close> of the match, or \<open>None\<close>.\<close>

definition re_match_name :: "string \<Rightarrow> (string \<times> string \<times> string) option" where
  "re_match_name name =
     (case (case match_lit ''ufix'' name of Some r \<Rightarrow> Some r | None \<Rightarrow> match_lit ''fix'' name) of
        None \<Rightarrow> None
      | Some (sg, r1) \<Rightarrow>
          (case r1 of
             [] \<Rightarrow> None
           | c # r2 \<Rightarrow>
               if c \<noteq> CHR ''_'' \<or> takeWhile is_digit r2 = [] then None
               else
                 (case dropWhile is_digit r2 of
                    [] \<Rightarrow> None
                  | c' # r3 \<Rightarrow>
                      if c' \<noteq> CHR ''_'' \<or> takeWhile is_digit r3 = [] then None
                      else Some (sg, takeWhile is_digit r2, takeWhile is_digit r3))))"

text \<open>\<^verbatim>\<open>int(s)\<close> on a non-empty string of ASCII digits.\<close>

definition int_of_digits :: "string \<Rightarrow> nat" where
  "int_of_digits s = foldl (\<lambda>a c. 10 * a + (of_char c - 48)) 0 s"

text \<open>
  \<^verbatim>\<open>conv_from_name\<close>. The group is compared with the lower-case literal \<^verbatim>\<open>'fix'\<close> as it was
  matched: the comparison \<^verbatim>\<open>params['signed'] == 'fix'\<close> is case-sensitive.
\<close>

definition conv_from_name :: "string \<Rightarrow> error + conv" where
  "conv_from_name name =
     (case re_match_name name of
        None \<Rightarrow> Inl (ConversionError_name name)
      | Some (sg, b, p) \<Rightarrow> get_conv (int_of_digits b) (int_of_digits p) (sg = ''fix'') 1)"

subsection \<open>Decoding\<close>

text \<open>
  \<^verbatim>\<open>fix2real\<close>. In Python \<^verbatim>\<open>&\<close> binds tighter than \<^verbatim>\<open>>\<close>, so the test is
  \<^verbatim>\<open>(uval & sign_mask) > 0\<close>. The final division raises \<^verbatim>\<open>ZeroDivisionError\<close> when
  \<open>scaling\<close> is zero.
\<close>

definition fix2real :: "int \<Rightarrow> conv \<Rightarrow> error + real" where
  "fix2real uval c =
     (let int_val = drop_bit (bin_point c) (uval AND int_mask c);
          dec_val = dec_step c * of_int (uval AND dec_mask c);
          res = (if signed c \<and> uval AND sign_mask c > 0
                 then int_min c + of_int int_val + dec_val
                 else of_int int_val + dec_val)
      in if scaling c = 0 then Inl ZeroDivisionError else Inr (res / scaling c))"

text \<open>
  The \<^verbatim>\<open>struct\<close> module. A buffer is a byte string. The byte order character is one of
  \<^verbatim>\<open>@ = < > !\<close>; what \<^verbatim>\<open>@\<close> and \<^verbatim>\<open>=\<close> mean depends on the host, which is a parameter.
  The items \<^verbatim>\<open>B\<close>, \<^verbatim>\<open>H\<close>, \<^verbatim>\<open>I\<close> are 1, 2 and 4 bytes long: the standard sizes, which are
  also the native sizes of \<^verbatim>\<open>unsigned char\<close>, \<^verbatim>\<open>unsigned short\<close> and \<^verbatim>\<open>unsigned int\<close> on the
  usual hosts. A run of equal items has no padding.
\<close>

datatype endianness = Native | Native_std | Little | Big | Network

definition little_endian :: "bool \<Rightarrow> endianness \<Rightarrow> bool" where
  "little_endian host_little e =
     (case e of Native \<Rightarrow> host_little | Native_std \<Rightarrow> host_little
              | Little \<Rightarrow> True | Big \<Rightarrow> False | Network \<Rightarrow> False)"

definition calcsize :: "struct_code \<Rightarrow> nat" where
  "calcsize f = (case f of Fmt_B \<Rightarrow> 1 | Fmt_H \<Rightarrow> 2 | Fmt_I \<Rightarrow> 4)"

definition uint_of_bytes :: "bool \<Rightarrow> string \<Rightarrow> int" where
  "uint_of_bytes le bs = foldl (\<lambda>a b. 256 * a + of_char b) 0 (if le then rev bs else bs)"

text \<open>The \<open>i\<close>-th run of \<open>k\<close> bytes of a buffer.\<close>

definition slice :: "nat \<Rightarrow> nat \<Rightarrow> string \<Rightarrow> string" where
  "slice k i bs = take k (drop (i * k) bs)"

text \<open>
  \<^verbatim>\<open>struct.unpack(endianness + str(n) + code, buffer)\<close>: \<open>n\<close> unsigned integers, or
  \<^verbatim>\<open>struct.error\<close> when the buffer is not exactly \<open>n\<close> items long.
\<close>

definition struct_unpack :: "bool \<Rightarrow> endianness \<Rightarrow> nat \<Rightarrow> struct_code \<Rightarrow> string \<Rightarrow> error + int list" where
  "struct_unpack host_little e n f bs =
     (if length bs \<noteq> n * calcsize f then Inl StructError
      else Inr (map (\<lambda>i. uint_of_bytes (little_endian host_little e) (slice (calcsize f) i bs)) [0..<n]))"

text \<open>\<^verbatim>\<open>bin2real\<close>: the format has no count, so one item is unpacked and \<^verbatim>\<open>[0]\<close> reads it.\<close>

definition bin2real :: "bool \<Rightarrow> string \<Rightarrow> conv \<Rightarrow> endianness \<Rightarrow> error + real" where
  "bin2real host_little binary_string c e =
     (case struct_unpack host_little e 1 (fmt c) binary_string of
        Inl err \<Rightarrow> Inl err
      | Inr data \<Rightarrow> fix2real (hd data) c)"

text \<open>The list comprehension of \<^verbatim>\<open>stream2real\<close>: the first exception ends it.\<close>

fun map_err :: "('a \<Rightarrow> error + 'b) \<Rightarrow> 'a list \<Rightarrow> error + 'b list" where
  "map_err f [] = Inr []"
| "map_err f (x # xs) =
     (case f x of
        Inl err \<Rightarrow> Inl err
      | Inr y \<Rightarrow> (case map_err f xs of Inl err \<Rightarrow> Inl err | Inr ys \<Rightarrow> Inr (y # ys)))"

text \<open>\<^verbatim>\<open>stream2real\<close>. \<^verbatim>\<open>len(binary_stream) // (conv["bits"] // 8)\<close> divides by zero below 8 bits.\<close>

definition stream2real :: "bool \<Rightarrow> string \<Rightarrow> conv \<Rightarrow> endianness \<Rightarrow> error + real list" where
  "stream2real host_little binary_stream c e =
     (if bits c div 8 = 0 then Inl ZeroDivisionError
      else
        (let count = length binary_stream div (bits c div 8) in
         case struct_unpack host_little e count (fmt c) binary_stream of
           Inl err \<Rightarrow> Inl err
         | Inr data \<Rightarrow> map_err (\<lambda>d. fix2real d c) data))"

subsection \<open>Encoding\<close>

text \<open>
  \<^verbatim>\<open>real2fix\<close>. \<^verbatim>\<open>divmod(abs(real), 1)\<close> is the floor and the fractional part; \<^verbatim>\<open>//\<close> is the
  floor of the quotient, as a float, and raises \<^verbatim>\<open>ZeroDivisionError\<close> on a zero divisor. The
  result is the float \<^verbatim>\<open>... + dec\<close>. \<open>scaling\<close> is not read.
\<close>

definition real2fix :: "real \<Rightarrow> conv \<Rightarrow> error + real" where
  "real2fix rval c =
     (if \<not> signed c \<and> rval < 0 then Inl (ConversionError_unsigned rval)
      else
        (let sign = (if rval < 0 then (1::nat) else 0);
             real1 = (if rval < 0 then rval - int_min c else rval);
             int_val0 = \<lfloor>\<bar>real1\<bar>\<rfloor>;
             dec_val0 = \<bar>real1\<bar> - of_int \<lfloor>\<bar>real1\<bar>\<rfloor>;
             int_val = int_val0 AND drop_bit (bin_point c) (int_mask c)
         in if dec_step c = 0 then Inl ZeroDivisionError
            else
              (let dec0 = of_int \<lfloor>dec_val0 / dec_step c\<rfloor>;
                   dec1 = (if dec0 > of_int (dec_mask c) then of_int (dec_mask c) else dec0);
                   dec_val = dec1 * dec_step c;
                   val = of_int int_val + dec_val;
                   dec = (if val - real1 > real1 - val + dec_step c then dec1 - 1 else dec1)
               in if sign = 1
                  then Inr (of_int (sign_mask c) + of_int (push_bit (bin_point c) int_val AND int_mask c) + dec)
                  else Inr (of_int (push_bit (bin_point c) int_val AND int_mask c) + dec))))"

subsection \<open>Calls composed as in the module's examples\<close>

text \<open>
  \<^verbatim>\<open>f(..., get_conv(...))\<close>: an exception of the inner call is the outcome of the whole
  expression.
\<close>

definition with_conv :: "error + conv \<Rightarrow> (conv \<Rightarrow> error + 'a) \<Rightarrow> error + 'a" where
  "with_conv r f = (case r of Inl err \<Rightarrow> Inl err | Inr c \<Rightarrow> f c)"

text \<open>\<^verbatim>\<open>real2fix(fix2real(raw, conv), conv)\<close>.\<close>

definition round_trip :: "int \<Rightarrow> conv \<Rightarrow> error + real" where
  "round_trip raw c = (case fix2real raw c of Inl err \<Rightarrow> Inl err | Inr v \<Rightarrow> real2fix v c)"

subsection \<open>The decoder as the specification words it\<close>

text \<open>
  The integer part plus the fractional part, plus \<open>int_min\<close> when the format is signed and the
  sign bit (bit \<open>bits - 1\<close>) of the raw value is set, all divided by \<open>scaling\<close>. This definition
  follows the specification, not the source; it is compared with \<open>fix2real\<close> below.
\<close>

definition decodeValue_spec :: "int \<Rightarrow> conv \<Rightarrow> real" where
  "decodeValue_spec raw c =
     (of_int (drop_bit (bin_point c) (raw AND int_mask c))
      + dec_step c * of_int (raw AND dec_mask c)
      + (if signed c \<and> bit raw (bits c - 1) then int_min c else 0)) / scaling c"

section \<open>Auxiliary facts\<close>

subsection \<open>The masks\<close>

lemma sum_pow2_eq: "a \<le> b \<Longrightarrow> sum_pow2 a b = 2 ^ b - 2 ^ a"
  by (induction b) (auto simp: sum_pow2_def le_Suc_eq)

lemma sum_pow2_empty: "b \<le> a \<Longrightarrow> sum_pow2 a b = 0"
  by (simp add: sum_pow2_def)

lemma sum_pow2_mask: "sum_pow2 0 n = mask n"
  by (simp add: sum_pow2_eq mask_eq_exp_minus_1)

lemma sum_pow2_push_bit: "a \<le> b \<Longrightarrow> sum_pow2 a b = push_bit a (mask (b - a))"
  by (simp add: sum_pow2_eq mask_eq_exp_minus_1 push_bit_eq_mult algebra_simps flip: power_add)

lemma bit_sum_pow2: "bit (sum_pow2 a b) i \<longleftrightarrow> a \<le> i \<and> i < b"
proof (cases "a \<le> b")
  case True
  then show ?thesis
    by (auto simp add: sum_pow2_push_bit bit_push_bit_iff bit_mask_iff)
next
  case False
  then show ?thesis by (simp add: sum_pow2_empty)
qed

lemma and_low_bits:
  fixes x m :: int
  assumes "\<And>i. bit m i \<Longrightarrow> i < n"
  shows "(x mod 2 ^ n) AND m = x AND m"
  by (rule bit_eqI) (auto simp: bit_and_iff bit_take_bit_iff dest: assms simp flip: take_bit_eq_mod)

lemma sign_test: "(x::int) AND 2 ^ n > 0 \<longleftrightarrow> bit x n"
proof -
  have "0 \<le> x AND 2 ^ n" by simp
  then show ?thesis
    using and_exp_eq_0_iff_not_bit[of x n] by linarith
qed

subsection \<open>What a successful \<open>get_conv\<close> returns\<close>

lemma get_conv_Inr:
  "get_conv b p sg sc = Inr c \<longleftrightarrow>
     p < 1024 \<and> b \<in> {8, 16, 32} \<and>
     c = (let c0 = \<lparr>bits = b, bin_point = p, signed = sg, scaling = sc,
                      dec_step = 1 / 2 ^ p, dec_mask = sum_pow2 0 p,
                      fmt = (if b = 8 then Fmt_B else if b = 16 then Fmt_H else Fmt_I)\<rparr>
          in if sg then get_signed_params c0 else get_unsigned_params c0)"
  by (auto simp: get_conv_def Let_def)

lemma get_conv_fields:
  assumes "get_conv b p sg sc = Inr c"
  shows "bits c = b" "bin_point c = p" "signed c = sg" "scaling c = sc"
    "dec_step c = 1 / 2 ^ p" "dec_mask c = mask p"
    "fmt c = (if b = 8 then Fmt_B else if b = 16 then Fmt_H else Fmt_I)"
    "sign_mask c = (if sg then 2 ^ (b - 1) else 0)"
    "int_min c = (if sg then - (2 powi (int b - 1 - int p)) else 0)"
    "int_mask c = sum_pow2 p (if sg then b - 1 else b)"
    "int_max c = sum_pow2 0 (if sg then b - p - 1 else b - p)"
    "p < 1024" "b = 8 \<or> b = 16 \<or> b = 32"
  using assms
  by (auto simp: get_conv_Inr Let_def get_signed_params_def get_unsigned_params_def sum_pow2_mask)

section \<open>The claims\<close>

text \<open>
  C7, as amended. For \<open>bin_point < 1024\<close>, \<open>get_conv\<close> raises \<^verbatim>\<open>ConversionError\<close> exactly when
  \<open>bits\<close> is not 8, 16 or 32, and raises nothing else; from \<open>bin_point = 1024\<close> on it raises
  \<^verbatim>\<open>OverflowError\<close> whatever the width. For a supported width and \<open>bin_point < bits\<close> it returns a
  descriptor with \<open>dec_step = 1 / 2 ^ bin_point\<close>, \<open>dec_mask = 2 ^ bin_point - 1\<close> and the
  sign-specific constants: unsigned, \<open>sign_mask = 0\<close>, \<open>int_min = 0\<close>, \<open>int_mask\<close> the bits
  \<open>bin_point .. bits - 1\<close>, \<open>int_max = 2 ^ (bits - bin_point) - 1\<close>; signed,
  \<open>sign_mask = 2 ^ (bits - 1)\<close>, \<open>int_min = - 2 ^ (bits - 1 - bin_point)\<close>, \<open>int_mask\<close> the bits
  \<open>bin_point .. bits - 2\<close>, \<open>int_max = 2 ^ (bits - 1 - bin_point) - 1\<close>.
\<close>

theorem get_conv_descriptor:
  "(p < 1024 \<longrightarrow> (get_conv b p sg sc = Inl (ConversionError_bits b) \<longleftrightarrow> b \<notin> {8, 16, 32}))
   \<and> (p < 1024 \<longrightarrow> (isl (get_conv b p sg sc) \<longleftrightarrow> b \<notin> {8, 16, 32}))
   \<and> (1024 \<le> p \<longrightarrow> get_conv b p sg sc = Inl OverflowError)
   \<and> (b \<in> {8, 16, 32} \<and> p < b \<longrightarrow>
        (\<exists>c. get_conv b p sg sc = Inr c
           \<and> bits c = b \<and> bin_point c = p \<and> signed c = sg \<and> scaling c = sc
           \<and> dec_step c = 1 / 2 ^ p \<and> dec_mask c = 2 ^ p - 1
           \<and> (\<not> sg \<longrightarrow> sign_mask c = 0 \<and> int_min c = 0
                  \<and> (\<forall>i. bit (int_mask c) i \<longleftrightarrow> p \<le> i \<and> i < b)
                  \<and> int_max c = 2 ^ (b - p) - 1)
           \<and> (sg \<longrightarrow> sign_mask c = 2 ^ (b - 1) \<and> int_min c = - (2 ^ (b - 1 - p))
                  \<and> (\<forall>i. bit (int_mask c) i \<longleftrightarrow> p \<le> i \<and> i < b - 1)
                  \<and> int_max c = 2 ^ (b - 1 - p) - 1)))"
proof (intro conjI impI)
  assume "p < 1024"
  then show "get_conv b p sg sc = Inl (ConversionError_bits b) \<longleftrightarrow> b \<notin> {8, 16, 32}"
    by (auto simp: get_conv_def Let_def)
next
  assume "p < 1024"
  then show "isl (get_conv b p sg sc) \<longleftrightarrow> b \<notin> {8, 16, 32}"
    by (auto simp: get_conv_def Let_def)
next
  assume "1024 \<le> p"
  then show "get_conv b p sg sc = Inl OverflowError"
    by (simp add: get_conv_def)
next
  assume h: "b \<in> {8, 16, 32} \<and> p < b"
  then have p: "p < 1024" by auto
  obtain c where c: "get_conv b p sg sc = Inr c"
    using h p by (auto simp: get_conv_Inr Let_def)
  have pw: "2 powi (int b - 1 - int p) = (2::real) ^ (b - 1 - p)"
    using h by (auto simp: power_int_def nat_diff_distrib')
  have "dec_mask c = 2 ^ p - 1"
    by (simp add: get_conv_fields(6)[OF c] mask_eq_exp_minus_1)
  moreover have "int_max c = (if sg then 2 ^ (b - 1 - p) - 1 else 2 ^ (b - p) - 1)"
    by (simp add: get_conv_fields(11)[OF c] sum_pow2_eq)
  moreover have "\<forall>i. bit (int_mask c) i \<longleftrightarrow> p \<le> i \<and> i < (if sg then b - 1 else b)"
    by (simp add: get_conv_fields(10)[OF c] bit_sum_pow2)
  moreover have "int_min c = (if sg then - (2 ^ (b - 1 - p)) else 0)"
    by (simp add: get_conv_fields(9)[OF c] pw)
  ultimately show "\<exists>c. get_conv b p sg sc = Inr c
           \<and> bits c = b \<and> bin_point c = p \<and> signed c = sg \<and> scaling c = sc
           \<and> dec_step c = 1 / 2 ^ p \<and> dec_mask c = 2 ^ p - 1
           \<and> (\<not> sg \<longrightarrow> sign_mask c = 0 \<and> int_min c = 0
                  \<and> (\<forall>i. bit (int_mask c) i \<longleftrightarrow> p \<le> i \<and> i < b)
                  \<and> int_max c = 2 ^ (b - p) - 1)
           \<and> (sg \<longrightarrow> sign_mask c = 2 ^ (b - 1) \<and> int_min c = - (2 ^ (b - 1 - p))
                  \<and> (\<forall>i. bit (int_mask c) i \<longleftrightarrow> p \<le> i \<and> i < b - 1)
                  \<and> int_max c = 2 ^ (b - 1 - p) - 1)"
    using c get_conv_fields(1-5,8)[OF c] by (intro exI[of _ c]) simp
qed

text \<open>
  The claim as stated fails where the conversion of \<open>2 ^ bin_point\<close> to a float overflows:
  \<^verbatim>\<open>get_conv(7, 1024)\<close> has an unsupported width and raises \<^verbatim>\<open>OverflowError\<close>, not
  \<^verbatim>\<open>ConversionError\<close>.
\<close>

theorem get_conv_overflow_counterexample:
  "get_conv 7 1024 False 1 = Inl OverflowError
   \<and> get_conv 7 1024 False 1 \<noteq> Inl (ConversionError_bits 7)"
  by (simp add: get_conv_def)

theorem get_conv_descriptor_witness:
  "(7::nat) < 1024 \<and> (8::nat) \<in> {8, 16, 32} \<and> (7::nat) < 8 \<and> (1024::nat) \<le> 1024
   \<and> \<not> isl (get_conv 8 7 True 1)
   \<and> get_conv 12 7 True 1 = Inl (ConversionError_bits 12)
   \<and> get_conv 8 1024 True 1 = Inl OverflowError
   \<and> (\<exists>c. get_conv 8 7 True 1 = Inr c \<and> dec_step c = 1 / 128 \<and> dec_mask c = 127
         \<and> sign_mask c = 128 \<and> int_min c = - 1 \<and> \<not> bit (int_mask c) 7 \<and> int_max c = 0)
   \<and> (\<exists>c. get_conv 16 10 False 1 = Inr c \<and> dec_step c = 1 / 1024 \<and> dec_mask c = 1023
         \<and> sign_mask c = 0 \<and> int_min c = 0 \<and> bit (int_mask c) 10 \<and> bit (int_mask c) 15
         \<and> \<not> bit (int_mask c) 9 \<and> \<not> bit (int_mask c) 16 \<and> int_max c = 63)"
  using get_conv_descriptor[of 7 8 True 1] get_conv_descriptor[of 7 12 True 1]
    get_conv_descriptor[of 1024 8 True 1] get_conv_descriptor[of 10 16 False 1]
  by auto

text \<open>
  C3. The claim says that the canonical name in any letter case parses to the descriptor of
  \<^verbatim>\<open>get_conv(bits, bin_point, signed)\<close>. The pattern is matched without regard to case, but the
  matched prefix is then compared with the lower-case \<^verbatim>\<open>'fix'\<close>: the Simulink spelling
  \<^verbatim>\<open>Fix_8_7\<close> of the signed type parses to the unsigned descriptor, while \<^verbatim>\<open>fix_8_7\<close> parses
  to the signed one.
\<close>

theorem conv_from_name_capitalised:
  "conv_from_name ''Fix_8_7'' = get_conv 8 7 False 1
   \<and> conv_from_name ''Fix_8_7'' \<noteq> get_conv 8 7 True 1
   \<and> conv_from_name ''fix_8_7'' = get_conv 8 7 True 1"
proof -
  have "conv_from_name ''Fix_8_7'' = get_conv 8 7 False 1"
    by (simp add: conv_from_name_def re_match_name_def to_lower_def is_digit_def int_of_digits_def)
  moreover have "conv_from_name ''fix_8_7'' = get_conv 8 7 True 1"
    by (simp add: conv_from_name_def re_match_name_def to_lower_def is_digit_def int_of_digits_def)
  moreover have "get_conv 8 7 False 1 \<noteq> get_conv 8 7 True 1"
    by (simp add: get_conv_def get_signed_params_def get_unsigned_params_def)
  ultimately show ?thesis by simp
qed

text \<open>
  C10. For a descriptor of \<open>get_conv\<close> with \<open>bin_point < bits\<close>, \<open>fix2real\<close> gives the same
  outcome on \<open>raw\<close> and on \<open>raw mod 2 ^ bits\<close>: every bit of \<open>int_mask\<close>, \<open>dec_mask\<close> and
  \<open>sign_mask\<close> lies below position \<open>bits\<close>. (It holds for every integer \<open>raw\<close>, the non-negative
  ones of the claim among them.)
\<close>

theorem fix2real_low_bits:
  assumes "get_conv b p sg sc = Inr c" and "p < b"
  shows "fix2real raw c = fix2real (raw mod 2 ^ b) c"
proof -
  note f = get_conv_fields[OF assms(1)]
  have b: "0 < b" using assms(2) by simp
  have 1: "(raw mod 2 ^ b) AND int_mask c = raw AND int_mask c"
    by (rule and_low_bits) (auto simp: f bit_sum_pow2 split: if_splits)
  have 2: "(raw mod 2 ^ b) AND dec_mask c = raw AND dec_mask c"
    using assms(2) by (intro and_low_bits) (auto simp: f bit_mask_iff)
  have 3: "(raw mod 2 ^ b) AND sign_mask c = raw AND sign_mask c"
    using b by (intro and_low_bits) (auto simp: f bit_exp_iff split: if_splits)
  show ?thesis
    unfolding fix2real_def 1 2 3 ..
qed

theorem fix2real_low_bits_witness:
  "get_conv 8 7 True 1 = Inr (projr (get_conv 8 7 True 1)) \<and> (7::nat) < 8
   \<and> fix2real 385 (projr (get_conv 8 7 True 1)) = fix2real (385 mod 2 ^ 8) (projr (get_conv 8 7 True 1))
   \<and> fix2real (385 mod 2 ^ 8) (projr (get_conv 8 7 True 1)) = Inr (- 0.9921875)"
proof -
  have g: "get_conv 8 7 True 1 = Inr (projr (get_conv 8 7 True 1))"
    by (simp add: get_conv_def)
  have "fix2real (385 mod 2 ^ 8) (projr (get_conv 8 7 True 1)) = Inr (- 0.9921875)"
    by (simp add: get_conv_def get_signed_params_def fix2real_def sum_pow2_eq sum_pow2_empty)
  then show ?thesis
    using g fix2real_low_bits[OF g, of 385] by simp
qed

text \<open>
  C2, as amended. For a descriptor of \<open>get_conv\<close> with \<open>bin_point < bits\<close> and a scaling other
  than zero, \<open>fix2real raw\<close> returns the integer part plus the fractional part, plus \<open>int_min\<close>
  when the format is signed and the sign bit of \<open>raw\<close> is set, all divided by \<open>scaling\<close>; it
  returns 0 on the raw value 0; and the five 8-bit scenarios for the raw value \<open>0b10000001\<close>
  hold.
\<close>

theorem fix2real_formula:
  assumes "get_conv b p sg sc = Inr c" and "p < b" and "sc \<noteq> 0"
  shows "fix2real raw c = Inr (decodeValue_spec raw c)
     \<and> fix2real 0 c = Inr 0
     \<and> with_conv (get_conv 8 7 True 1) (fix2real 129) = Inr (- 0.9921875)
     \<and> with_conv (get_conv 8 5 True 1) (fix2real 129) = Inr (- 3.96875)
     \<and> with_conv (get_conv 8 0 True 1) (fix2real 129) = Inr (- 127)
     \<and> with_conv (get_conv 8 7 False 1) (fix2real 129) = Inr 1.0078125
     \<and> with_conv (get_conv 8 0 False 1) (fix2real 129) = Inr 129"
proof -
  note f = get_conv_fields[OF assms(1)]
  have "fix2real raw c = Inr (decodeValue_spec raw c)"
    using assms(3) by (simp add: fix2real_def decodeValue_spec_def f sign_test Let_def)
  moreover have "fix2real 0 c = Inr 0"
    using assms(3) by (simp add: fix2real_def f)
  moreover have "with_conv (get_conv 8 7 True 1) (fix2real 129) = Inr (- 0.9921875)"
    by (simp add: with_conv_def get_conv_def get_signed_params_def fix2real_def
        sum_pow2_eq sum_pow2_empty)
  moreover have "with_conv (get_conv 8 5 True 1) (fix2real 129) = Inr (- 3.96875)"
    by (simp add: with_conv_def get_conv_def get_signed_params_def fix2real_def
        sum_pow2_eq sum_pow2_empty)
  moreover have "with_conv (get_conv 8 0 True 1) (fix2real 129) = Inr (- 127)"
    by (simp add: with_conv_def get_conv_def get_signed_params_def fix2real_def
        sum_pow2_eq sum_pow2_empty)
  moreover have "with_conv (get_conv 8 7 False 1) (fix2real 129) = Inr 1.0078125"
    by (simp add: with_conv_def get_conv_def get_unsigned_params_def fix2real_def
        sum_pow2_eq sum_pow2_empty)
  moreover have "with_conv (get_conv 8 0 False 1) (fix2real 129) = Inr 129"
    by (simp add: with_conv_def get_conv_def get_unsigned_params_def fix2real_def
        sum_pow2_eq sum_pow2_empty)
  ultimately show ?thesis by blast
qed

theorem fix2real_formula_witness:
  "get_conv 8 5 False 1 = Inr (projr (get_conv 8 5 False 1)) \<and> (5::nat) < 8 \<and> (1::real) \<noteq> 0
   \<and> fix2real 129 (projr (get_conv 8 5 False 1))
       = Inr (decodeValue_spec 129 (projr (get_conv 8 5 False 1)))
   \<and> decodeValue_spec 129 (projr (get_conv 8 5 False 1)) = 4.03125
   \<and> fix2real 0 (projr (get_conv 8 5 False 1)) = Inr 0"
proof -
  have g: "get_conv 8 5 False 1 = Inr (projr (get_conv 8 5 False 1))"
    by (simp add: get_conv_def)
  have "decodeValue_spec 129 (projr (get_conv 8 5 False 1)) = 4.03125"
    by (simp add: decodeValue_spec_def get_conv_def get_unsigned_params_def sum_pow2_eq)
  then show ?thesis
    using g fix2real_formula[OF g, of 129] by simp
qed

text \<open>
  The claim as stated fails at a zero scaling, which \<open>get_conv\<close> accepts: the descriptor is
  built, and decoding the raw value 0 raises \<^verbatim>\<open>ZeroDivisionError\<close> instead of returning 0.
\<close>

theorem fix2real_zero_scaling_counterexample:
  "\<not> isl (get_conv 8 0 False 0)
   \<and> with_conv (get_conv 8 0 False 0) (fix2real 0) = Inl ZeroDivisionError"
  by (simp add: with_conv_def get_conv_def get_unsigned_params_def fix2real_def)

text \<open>
  C9. \<open>real2fix\<close> does not depend on \<open>scaling\<close>: changing that field of any descriptor, or
  building two descriptors that differ in the scaling argument only, gives the same outcome,
  value or exception, on every input. \<open>fix2real\<close> does depend on it: its result under a
  scaling \<open>s1\<close> other than zero is its result under the scaling 1 divided by \<open>s1\<close>.
\<close>

theorem real2fix_ignores_scaling:
  "real2fix r (c\<lparr>scaling := s\<rparr>) = real2fix r c
   \<and> (get_conv b p sg s1 = Inr c1 \<and> get_conv b p sg s2 = Inr c2 \<longrightarrow> real2fix r c1 = real2fix r c2)
   \<and> (get_conv b p sg s1 = Inr c1 \<and> get_conv b p sg 1 = Inr c2 \<and> s1 \<noteq> 0 \<longrightarrow>
        (\<exists>v. fix2real raw c2 = Inr v \<and> fix2real raw c1 = Inr (v / s1)))"
proof (intro conjI impI)
  show "real2fix r (c\<lparr>scaling := s\<rparr>) = real2fix r c"
    by (simp add: real2fix_def Let_def)
next
  assume "get_conv b p sg s1 = Inr c1 \<and> get_conv b p sg s2 = Inr c2"
  then have "c2 = c1\<lparr>scaling := s2\<rparr>"
    by (auto simp: get_conv_Inr Let_def get_signed_params_def get_unsigned_params_def)
  then show "real2fix r c1 = real2fix r c2"
    by (simp add: real2fix_def Let_def)
next
  assume h: "get_conv b p sg s1 = Inr c1 \<and> get_conv b p sg 1 = Inr c2 \<and> s1 \<noteq> 0"
  then have "c2 = c1\<lparr>scaling := 1\<rparr>" and "scaling c1 = s1"
    by (auto simp: get_conv_Inr Let_def get_signed_params_def get_unsigned_params_def)
  then show "\<exists>v. fix2real raw c2 = Inr v \<and> fix2real raw c1 = Inr (v / s1)"
    using h by (simp add: fix2real_def Let_def)
qed

theorem real2fix_ignores_scaling_witness:
  "get_conv 8 0 False 2 = Inr (projr (get_conv 8 0 False 2))
   \<and> get_conv 8 0 False 1 = Inr (projr (get_conv 8 0 False 1)) \<and> (2::real) \<noteq> 0
   \<and> real2fix 100 (projr (get_conv 8 0 False 2)) = real2fix 100 (projr (get_conv 8 0 False 1))
   \<and> real2fix 100 (projr (get_conv 8 0 False 1)) = Inr 100
   \<and> fix2real 100 (projr (get_conv 8 0 False 1)) = Inr 100
   \<and> fix2real 100 (projr (get_conv 8 0 False 2)) = Inr 50"
proof -
  have g2: "get_conv 8 0 False 2 = Inr (projr (get_conv 8 0 False 2))"
    and g1: "get_conv 8 0 False 1 = Inr (projr (get_conv 8 0 False 1))"
    by (simp_all add: get_conv_def)
  have e: "real2fix 100 (projr (get_conv 8 0 False 1)) = Inr 100"
    by (simp add: get_conv_def get_unsigned_params_def real2fix_def sum_pow2_eq)
  have d: "fix2real 100 (projr (get_conv 8 0 False 1)) = Inr 100"
    by (simp add: get_conv_def get_unsigned_params_def fix2real_def sum_pow2_eq)
  show ?thesis
    using g1 g2 e d
      real2fix_ignores_scaling[where r = 100 and b = 8 and p = 0 and sg = False
        and ?s1.0 = 2 and ?c1.0 = "projr (get_conv 8 0 False 2)"
        and ?s2.0 = 1 and ?c2.0 = "projr (get_conv 8 0 False 1)" and raw = 100]
    by auto
qed

text \<open>
  C5. On a descriptor of \<open>get_conv\<close>, \<open>real2fix\<close> raises the \<^verbatim>\<open>ConversionError\<close> of its sign
  check exactly when the format is unsigned and the input is negative, and it raises nothing
  else: a negative input of an unsigned format always fails, and no other input fails.
\<close>

theorem real2fix_sign_error:
  assumes "get_conv b p sg sc = Inr c"
  shows "(real2fix r c = Inl (ConversionError_unsigned r) \<longleftrightarrow> \<not> signed c \<and> r < 0)
     \<and> (isl (real2fix r c) \<longleftrightarrow> \<not> signed c \<and> r < 0)"
proof -
  have "dec_step c \<noteq> 0"
    by (simp add: get_conv_fields(5)[OF assms])
  then show ?thesis
    by (auto simp: real2fix_def Let_def)
qed

theorem real2fix_sign_error_witness:
  "get_conv 8 7 False 1 = Inr (projr (get_conv 8 7 False 1))
   \<and> \<not> signed (projr (get_conv 8 7 False 1)) \<and> - (1 / 2) < (0::real)
   \<and> real2fix (- (1 / 2)) (projr (get_conv 8 7 False 1)) = Inl (ConversionError_unsigned (- (1 / 2)))
   \<and> \<not> isl (real2fix (1 / 2) (projr (get_conv 8 7 False 1)))"
proof -
  have g: "get_conv 8 7 False 1 = Inr (projr (get_conv 8 7 False 1))"
    by (simp add: get_conv_def)
  have s: "\<not> signed (projr (get_conv 8 7 False 1))"
    by (simp add: get_conv_def get_unsigned_params_def)
  show ?thesis
    using g s real2fix_sign_error[OF g, of "- (1 / 2)"] real2fix_sign_error[OF g, of "1 / 2"]
    by simp
qed

subsection \<open>Buffers\<close>

lemma calcsize_fmt:
  assumes "get_conv b p sg sc = Inr c"
  shows "calcsize (fmt c) = bits c div 8" and "0 < bits c div 8"
  using get_conv_fields(13)[OF assms]
  by (auto simp: get_conv_fields(1,7)[OF assms] calcsize_def)

lemma map_err_Inl: "map_err f xs = Inl err \<Longrightarrow> \<exists>x\<in>set xs. f x = Inl err"
  by (induction xs) (auto split: sum.splits)

lemma map_err_Inr:
  "map_err f xs = Inr ys \<longleftrightarrow> length ys = length xs \<and> (\<forall>i<length xs. f (xs ! i) = Inr (ys ! i))"
proof (induction xs arbitrary: ys)
  case Nil
  then show ?case by auto
next
  case (Cons x xs)
  show ?case
  proof (cases ys)
    case Nil
    then show ?thesis by (auto split: sum.splits)
  next
    case (Cons y ys')
    then show ?thesis
      using Cons.IH[of ys'] by (auto simp: All_less_Suc2 split: sum.splits)
  qed
qed

lemma map_err_total:
  assumes "\<And>x. x \<in> set xs \<Longrightarrow> \<not> isl (f x)"
  shows "\<exists>ys. map_err f xs = Inr ys"
  using assms by (induction xs) (auto split: sum.splits simp: isl_def)

lemma fix2real_error: "fix2real d c = Inl err \<Longrightarrow> err = ZeroDivisionError \<and> scaling c = 0"
  by (auto simp: fix2real_def Let_def split: if_splits)

lemma length_slice: "(i + 1) * k \<le> length bs \<Longrightarrow> length (slice k i bs) = k"
  by (simp add: slice_def)

lemma slice_0_id: "length s = k \<Longrightarrow> slice k 0 s = s"
  by (simp add: slice_def)

lemma bin2real_eq:
  "bin2real h bs c e =
     (if length bs \<noteq> calcsize (fmt c) then Inl StructError
      else fix2real (uint_of_bytes (little_endian h e) bs) c)"
  by (simp add: bin2real_def struct_unpack_def slice_0_id)

lemma stream2real_eq:
  assumes "0 < bits c div 8" and "calcsize (fmt c) = bits c div 8"
  shows "stream2real h bs c e =
     (if length bs mod (bits c div 8) \<noteq> 0 then Inl StructError
      else map_err (\<lambda>d. fix2real d c)
             (map (\<lambda>i. uint_of_bytes (little_endian h e) (slice (bits c div 8) i bs))
                [0..<length bs div (bits c div 8)]))"
proof -
  have "length bs = length bs div (bits c div 8) * (bits c div 8) \<longleftrightarrow> length bs mod (bits c div 8) = 0"
    by (metis add.right_neutral div_mult_mod_eq mod_div_mult_eq add_left_cancel)
  then show ?thesis
    using assms by (simp add: stream2real_def struct_unpack_def Let_def)
qed

text \<open>
  C6, as amended. On a descriptor of \<open>get_conv\<close>, \<open>bin2real\<close> raises \<^verbatim>\<open>struct.error\<close> exactly
  when the buffer is not \<open>bits div 8\<close> bytes long, and \<open>stream2real\<close> raises it exactly when the
  length of the buffer is not a multiple of \<open>bits div 8\<close>. When the scaling is not zero these are
  the only failures: on a buffer of the right length both operations return.
\<close>

theorem buffer_length_errors:
  assumes "get_conv b p sg sc = Inr c"
  shows "(bin2real h bs c e = Inl StructError \<longleftrightarrow> length bs \<noteq> bits c div 8)
     \<and> (stream2real h bs c e = Inl StructError \<longleftrightarrow> length bs mod (bits c div 8) \<noteq> 0)
     \<and> (sc \<noteq> 0 \<longrightarrow>
          (isl (bin2real h bs c e) \<longleftrightarrow> length bs \<noteq> bits c div 8)
          \<and> (isl (stream2real h bs c e) \<longleftrightarrow> length bs mod (bits c div 8) \<noteq> 0))"
proof -
  note k = calcsize_fmt[OF assms]
  have 1: "bin2real h bs c e = Inl StructError \<longleftrightarrow> length bs \<noteq> bits c div 8"
    using fix2real_error[of _ c StructError] by (auto simp: bin2real_eq k)
  have "map_err (\<lambda>d. fix2real d c) ds \<noteq> Inl StructError" for ds
    using map_err_Inl[of "\<lambda>d. fix2real d c" ds StructError] fix2real_error[of _ c StructError]
    by auto
  then have 2: "stream2real h bs c e = Inl StructError \<longleftrightarrow> length bs mod (bits c div 8) \<noteq> 0"
    by (simp add: stream2real_eq[OF k(2) k(1)])
  have 3: "(isl (bin2real h bs c e) \<longleftrightarrow> length bs \<noteq> bits c div 8)
      \<and> (isl (stream2real h bs c e) \<longleftrightarrow> length bs mod (bits c div 8) \<noteq> 0)" if "sc \<noteq> 0"
  proof -
    have sc: "scaling c \<noteq> 0"
      using that by (simp add: get_conv_fields(4)[OF assms])
    have ok: "\<not> isl (fix2real d c)" for d
      using sc by (simp add: fix2real_def Let_def)
    have "\<not> isl (map_err (\<lambda>d. fix2real d c) ds)" for ds
      using map_err_total[of ds "\<lambda>d. fix2real d c"] ok by auto
    then have "isl (stream2real h bs c e) \<longleftrightarrow> length bs mod (bits c div 8) \<noteq> 0"
      by (simp add: stream2real_eq[OF k(2) k(1)])
    moreover have "isl (bin2real h bs c e) \<longleftrightarrow> length bs \<noteq> bits c div 8"
      using ok by (simp add: bin2real_eq k)
    ultimately show ?thesis by simp
  qed
  from 1 2 3 show ?thesis by simp
qed

theorem buffer_length_errors_witness:
  "get_conv 16 0 False 1 = Inr (projr (get_conv 16 0 False 1)) \<and> (1::real) \<noteq> 0
   \<and> bits (projr (get_conv 16 0 False 1)) div 8 = 2
   \<and> bin2real True [CHR 0x01, CHR 0x02, CHR 0x03] (projr (get_conv 16 0 False 1)) Little = Inl StructError
   \<and> \<not> isl (bin2real True [CHR 0x01, CHR 0x02] (projr (get_conv 16 0 False 1)) Little)
   \<and> stream2real True [CHR 0x01, CHR 0x02, CHR 0x03] (projr (get_conv 16 0 False 1)) Little = Inl StructError
   \<and> \<not> isl (stream2real True [CHR 0x01, CHR 0x02, CHR 0x03, CHR 0x04] (projr (get_conv 16 0 False 1)) Little)"
proof -
  have g: "get_conv 16 0 False 1 = Inr (projr (get_conv 16 0 False 1))"
    by (simp add: get_conv_def)
  have b: "bits (projr (get_conv 16 0 False 1)) div 8 = 2"
    by (simp add: get_conv_def get_unsigned_params_def)
  show ?thesis
    using g b
      buffer_length_errors[OF g, of True "[CHR 0x01, CHR 0x02, CHR 0x03]" Little]
      buffer_length_errors[OF g, of True "[CHR 0x01, CHR 0x02]" Little]
      buffer_length_errors[OF g, of True "[CHR 0x01, CHR 0x02, CHR 0x03, CHR 0x04]" Little]
    by simp
qed

text \<open>
  The claim as stated fails at a zero scaling: a buffer of the right length is unpacked, and
  both operations then raise \<^verbatim>\<open>ZeroDivisionError\<close> in \<open>fix2real\<close>, so that a buffer that passes
  the length check does not make them succeed.
\<close>

theorem buffer_zero_scaling_counterexample:
  "get_conv 8 0 False 0 = Inr (projr (get_conv 8 0 False 0))
   \<and> length [CHR 0x02] = bits (projr (get_conv 8 0 False 0)) div 8
   \<and> bin2real True [CHR 0x02] (projr (get_conv 8 0 False 0)) Big = Inl ZeroDivisionError
   \<and> stream2real True [CHR 0x02] (projr (get_conv 8 0 False 0)) Big = Inl ZeroDivisionError"
  by (simp add: get_conv_def get_unsigned_params_def bin2real_def stream2real_def
      struct_unpack_def calcsize_def fix2real_def slice_def)

text \<open>
  C8, as amended. On a descriptor of \<open>get_conv\<close> with a scaling other than zero, any byte
  order and a buffer of exactly \<open>n * (bits div 8)\<close> bytes, \<open>stream2real\<close> returns a list of
  exactly \<open>n\<close> numbers, the \<open>i\<close>-th of which is what \<open>bin2real\<close> returns on the \<open>i\<close>-th run of
  \<open>bits div 8\<close> bytes of the buffer.
\<close>

theorem stream2real_elements:
  assumes "get_conv b p sg sc = Inr c" and "sc \<noteq> 0"
    and "length bs = n * (bits c div 8)"
  shows "\<exists>xs. stream2real h bs c e = Inr xs \<and> length xs = n
     \<and> (\<forall>i<n. bin2real h (slice (bits c div 8) i bs) c e = Inr (xs ! i))"
proof -
  note k = calcsize_fmt[OF assms(1)]
  let ?k = "bits c div 8"
  let ?ds = "map (\<lambda>i. uint_of_bytes (little_endian h e) (slice ?k i bs)) [0..<n]"
  have sc: "scaling c \<noteq> 0"
    using assms(2) by (simp add: get_conv_fields(4)[OF assms(1)])
  have n: "length bs div ?k = n" and m: "length bs mod ?k = 0"
    using k(2) assms(3) by simp_all
  have s: "stream2real h bs c e = map_err (\<lambda>d. fix2real d c) ?ds"
    by (simp add: stream2real_eq[OF k(2) k(1)] n m)
  have "\<not> isl (fix2real d c)" for d
    using sc by (simp add: fix2real_def Let_def)
  then obtain xs where xs: "map_err (\<lambda>d. fix2real d c) ?ds = Inr xs"
    using map_err_total[of ?ds "\<lambda>d. fix2real d c"] by blast
  then have len: "length xs = n"
    and el: "\<forall>i<n. fix2real (uint_of_bytes (little_endian h e) (slice ?k i bs)) c = Inr (xs ! i)"
    by (auto simp: map_err_Inr)
  have "bin2real h (slice ?k i bs) c e = Inr (xs ! i)" if "i < n" for i
  proof -
    have "Suc i \<le> n"
      using that by simp
    then have "Suc i * ?k \<le> n * ?k"
      by (rule mult_le_mono1)
    then have "(i + 1) * ?k \<le> length bs"
      using assms(3) by simp
    then have "length (slice ?k i bs) = ?k"
      by (rule length_slice)
    then show ?thesis
      using el that by (simp add: bin2real_eq k(1))
  qed
  then show ?thesis
    using s xs len by auto
qed

theorem stream2real_elements_witness:
  "get_conv 16 0 False 1 = Inr (projr (get_conv 16 0 False 1)) \<and> (1::real) \<noteq> 0
   \<and> length [CHR 0x01, CHR 0x02, CHR 0x03, CHR 0x04] = 2 * (bits (projr (get_conv 16 0 False 1)) div 8)
   \<and> stream2real True [CHR 0x01, CHR 0x02, CHR 0x03, CHR 0x04] (projr (get_conv 16 0 False 1)) Little
       = Inr [513, 1027]
   \<and> (\<exists>xs. stream2real True [CHR 0x01, CHR 0x02, CHR 0x03, CHR 0x04] (projr (get_conv 16 0 False 1)) Little = Inr xs
         \<and> length xs = 2
         \<and> bin2real True [CHR 0x01, CHR 0x02] (projr (get_conv 16 0 False 1)) Little = Inr (xs ! 0)
         \<and> bin2real True [CHR 0x03, CHR 0x04] (projr (get_conv 16 0 False 1)) Little = Inr (xs ! 1))"
proof -
  have g: "get_conv 16 0 False 1 = Inr (projr (get_conv 16 0 False 1))"
    by (simp add: get_conv_def)
  have b: "bits (projr (get_conv 16 0 False 1)) div 8 = 2"
    by (simp add: get_conv_def get_unsigned_params_def)
  have l: "length [CHR 0x01, CHR 0x02, CHR 0x03, CHR 0x04] = 2 * (bits (projr (get_conv 16 0 False 1)) div 8)"
    by (simp add: b)
  have v: "stream2real True [CHR 0x01, CHR 0x02, CHR 0x03, CHR 0x04] (projr (get_conv 16 0 False 1)) Little
       = Inr [513, 1027]"
    by (simp add: get_conv_def get_unsigned_params_def stream2real_def struct_unpack_def
      calcsize_def fix2real_def slice_def uint_of_bytes_def little_endian_def sum_pow2_eq upt_rec)
  from stream2real_elements[OF g _ l, of True Little]
  obtain xs where xs: "stream2real True [CHR 0x01, CHR 0x02, CHR 0x03, CHR 0x04] (projr (get_conv 16 0 False 1)) Little = Inr xs"
    and len: "length xs = 2"
    and el: "\<forall>i<2. bin2real True (slice (bits (projr (get_conv 16 0 False 1)) div 8) i [CHR 0x01, CHR 0x02, CHR 0x03, CHR 0x04]) (projr (get_conv 16 0 False 1)) Little = Inr (xs ! i)"
    by auto
  have e0: "bin2real True [CHR 0x01, CHR 0x02] (projr (get_conv 16 0 False 1)) Little = Inr (xs ! 0)"
    using el[rule_format, of 0] by (simp add: b slice_def)
  have e1: "bin2real True [CHR 0x03, CHR 0x04] (projr (get_conv 16 0 False 1)) Little = Inr (xs ! 1)"
    using el[rule_format, of 1] by (simp add: b slice_def)
  show ?thesis
    using g l v xs len e0 e1 by simp
qed

text \<open>
  The claim as stated fails at a zero scaling: on a one-byte buffer and the 8-bit descriptor with
  scaling 0, \<open>stream2real\<close> raises \<^verbatim>\<open>ZeroDivisionError\<close> and returns no list.
\<close>

theorem stream2real_zero_scaling_counterexample:
  "get_conv 8 0 False 0 = Inr (projr (get_conv 8 0 False 0))
   \<and> length [CHR 0x01] = 1 * (bits (projr (get_conv 8 0 False 0)) div 8)
   \<and> stream2real True [CHR 0x01] (projr (get_conv 8 0 False 0)) Little = Inl ZeroDivisionError"
  by (simp add: get_conv_def get_unsigned_params_def stream2real_def struct_unpack_def
      calcsize_def fix2real_def slice_def)

subsection \<open>The encoder on integers\<close>

text \<open>
  \<open>dec\<close> is an integer-valued float throughout \<open>real2fix\<close>, so an accepted input is encoded as
  the image of an integer.
\<close>

lemma real2fix_int_form:
  assumes "dec_step c \<noteq> 0" and "signed c \<or> 0 \<le> r"
  defines "r1 \<equiv> (if r < 0 then r - int_min c else r)"
  defines "iv \<equiv> \<lfloor>\<bar>r1\<bar>\<rfloor> AND drop_bit (bin_point c) (int_mask c)"
  defines "d0 \<equiv> \<lfloor>(\<bar>r1\<bar> - of_int \<lfloor>\<bar>r1\<bar>\<rfloor>) / dec_step c\<rfloor>"
  defines "d1 \<equiv> (if d0 > dec_mask c then dec_mask c else d0)"
  defines "d \<equiv> (if (of_int iv + of_int d1 * dec_step c) - r1
                     > r1 - (of_int iv + of_int d1 * dec_step c) + dec_step c
                  then d1 - 1 else d1)"
  shows "real2fix r c =
     Inr (of_int ((if r < 0 then sign_mask c else 0)
                  + (push_bit (bin_point c) iv AND int_mask c) + d))"
proof -
  have 1: "(if of_int d0 > (of_int (dec_mask c) :: real) then of_int (dec_mask c) else of_int d0)
        = (of_int d1 :: real)"
    by (simp add: d1_def)
  have 2: "(if (of_int iv + of_int d1 * dec_step c) - r1
                     > r1 - (of_int iv + of_int d1 * dec_step c) + dec_step c
            then of_int d1 - 1 else (of_int d1 :: real)) = of_int d"
    by (simp add: d_def)
  show ?thesis
    using assms(1,2)
    unfolding real2fix_def Let_def
    unfolding r1_def[symmetric] iv_def[symmetric] d0_def[symmetric] 1 2
    by auto
qed

lemma int_mask_push_bit: "p \<le> k \<Longrightarrow> (2::int) ^ k - 2 ^ p = push_bit p (mask (k - p))"
  using sum_pow2_push_bit[of p k] by (simp add: sum_pow2_eq)

lemma frac_bounds:
  fixes x :: real
  shows "0 \<le> x - of_int \<lfloor>x\<rfloor>" and "x - of_int \<lfloor>x\<rfloor> < 1"
  by linarith+

text \<open>
  C4. On a descriptor of \<open>get_conv\<close> with \<open>bin_point < bits\<close>, every input that the sign check
  of \<open>real2fix\<close> does not reject is encoded, and the value returned is a non-negative integer
  below \<open>2 ^ bits\<close>.
\<close>

theorem real2fix_range:
  assumes g: "get_conv b p sg sc = Inr c" and pb: "p < b"
    and acc: "real2fix r c \<noteq> Inl (ConversionError_unsigned r)"
  shows "\<exists>n::int. real2fix r c = Inr (of_int n) \<and> 0 \<le> n \<and> n < 2 ^ b"
proof -
  note f = get_conv_fields[OF g]
  have "real2fix r c = Inl (ConversionError_unsigned r)" if "\<not> signed c \<and> r < 0"
    using that by (simp add: real2fix_def)
  then have ok: "signed c \<or> 0 \<le> r"
    using acc by fastforce
  have st: "0 < dec_step c"
    by (simp add: f)
  define k where "k = (if sg then b - 1 else b)"
  have pk: "p \<le> k"
    using pb by (auto simp: k_def)
  have pw: "(2::int) ^ p \<le> 2 ^ k"
    using pk by (simp add: power_increasing)
  have im: "int_mask c = 2 ^ k - 2 ^ p"
    using pk by (simp add: f k_def sum_pow2_eq)
  have dm: "dec_mask c = 2 ^ p - 1"
    by (simp add: f mask_eq_exp_minus_1)
  define r1 where "r1 = (if r < 0 then r - int_min c else r)"
  define iv where "iv = \<lfloor>\<bar>r1\<bar>\<rfloor> AND drop_bit (bin_point c) (int_mask c)"
  define dv where "dv = \<bar>r1\<bar> - of_int \<lfloor>\<bar>r1\<bar>\<rfloor>"
  define d0 where "d0 = \<lfloor>dv / dec_step c\<rfloor>"
  define d1 where "d1 = (if d0 > dec_mask c then dec_mask c else d0)"
  define val where "val = of_int iv + of_int d1 * dec_step c"
  define d where "d = (if val - r1 > r1 - val + dec_step c then d1 - 1 else d1)"
  define X where "X = push_bit (bin_point c) iv AND int_mask c"
  define n where "n = (if r < 0 then sign_mask c else 0) + X + d"
  have eq: "real2fix r c = Inr (of_int n)"
    using real2fix_int_form[of c r] st ok
    unfolding n_def X_def d_def val_def d1_def d0_def dv_def iv_def r1_def by simp
  have X: "0 \<le> X" "X \<le> 2 ^ k - 2 ^ p"
    using pw by (simp_all add: X_def im)
  have dv: "0 \<le> dv" "dv < 1"
    unfolding dv_def by (rule frac_bounds)+
  have d0: "0 \<le> d0"
    using dv(1) st by (simp add: d0_def)
  have d1: "0 \<le> d1" "d1 \<le> 2 ^ p - 1" "d1 \<le> d0"
    using d0 by (auto simp: d1_def dm)
  have d: "d1 - 1 \<le> d" "d \<le> d1"
    by (simp_all add: d_def)
  show ?thesis
  proof (cases "r < 0")
    case True
    then have sg: "sg"
      using ok by (simp add: f)
    then have kb: "k = b - 1" and b: "b = Suc k"
      using pb by (simp_all add: k_def)
    have sm: "sign_mask c = 2 ^ k"
      using sg by (simp add: f kb)
    have "n = 2 ^ k + X + d"
      using True by (simp add: n_def sm)
    moreover have "(2::int) ^ b = 2 * 2 ^ k"
      by (simp add: b)
    moreover have "(1::int) \<le> 2 ^ k"
      by simp
    ultimately have "0 \<le> n \<and> n < 2 ^ b"
      using X d d1 by linarith
    with eq show ?thesis by blast
  next
    case False
    then have r1: "r1 = r" "\<bar>r1\<bar> = r1"
      by (simp_all add: r1_def)
    have "iv \<le> \<lfloor>\<bar>r1\<bar>\<rfloor>"
      by (simp add: iv_def)
    moreover have "of_int d1 * dec_step c \<le> dv"
    proof -
      have "of_int d1 \<le> (of_int d0 :: real)"
        using d1(3) by simp
      also have "\<dots> \<le> dv / dec_step c"
        by (simp add: d0_def)
      finally show ?thesis
        using st by (simp add: pos_le_divide_eq)
    qed
    ultimately have "val \<le> r1"
      using r1(2) unfolding val_def dv_def
      by (smt (verit) of_int_le_iff)
    then have "d = d1"
      using st by (simp add: d_def)
    then have "n = X + d1"
      using False by (simp add: n_def)
    moreover have "(2::int) ^ k \<le> 2 ^ b"
      by (simp add: k_def power_increasing)
    ultimately have "0 \<le> n \<and> n < 2 ^ b"
      using X d1 by linarith
    with eq show ?thesis by blast
  qed
qed

theorem real2fix_range_witness:
  "get_conv 8 7 True 1 = Inr (projr (get_conv 8 7 True 1)) \<and> (7::nat) < 8
   \<and> real2fix (- 0.9921875) (projr (get_conv 8 7 True 1)) = Inr 129
   \<and> (\<exists>n::int. real2fix (- 0.9921875) (projr (get_conv 8 7 True 1)) = Inr (of_int n)
         \<and> 0 \<le> n \<and> n < 2 ^ 8)"
proof -
  have g: "get_conv 8 7 True 1 = Inr (projr (get_conv 8 7 True 1))"
    by (simp add: get_conv_def)
  have v: "real2fix (- 0.9921875) (projr (get_conv 8 7 True 1)) = Inr 129"
    by (simp add: get_conv_def get_signed_params_def real2fix_def sum_pow2_eq sum_pow2_empty)
  then have a: "real2fix (- 0.9921875) (projr (get_conv 8 7 True 1))
      \<noteq> Inl (ConversionError_unsigned (- 0.9921875))"
    by simp
  show ?thesis
    using g v real2fix_range[OF g _ a] by simp
qed

subsection \<open>Decoding and encoding a raw value\<close>

lemma encode_core:
  assumes ok: "signed c \<or> 0 \<le> r"
    and r1: "(if r < 0 then r - int_min c else r) = of_int I + of_int F / 2 ^ p"
    and I: "0 \<le> I" "I < 2 ^ (k - p)" and F: "0 \<le> F" "F < 2 ^ p" and pk: "p \<le> k"
    and c: "bin_point c = p" "int_mask c = 2 ^ k - 2 ^ p" "dec_mask c = 2 ^ p - 1"
      "dec_step c = 1 / 2 ^ p"
  shows "real2fix r c = Inr (of_int ((if r < 0 then sign_mask c else 0) + push_bit p I + F))"
proof -
  define r1 where "r1 = (if r < 0 then r - int_min c else r)"
  have r1_eq: "r1 = of_int I + of_int F / 2 ^ p"
    using r1 by (simp add: r1_def)
  have fr: "0 \<le> real_of_int F / 2 ^ p" "real_of_int F / 2 ^ p < 1"
    using F by simp_all
  have r1_pos: "\<bar>r1\<bar> = r1"
    using I(1) fr(1) by (simp add: r1_eq)
  have fl: "\<lfloor>r1\<rfloor> = I"
    unfolding r1_eq using fr by linarith
  have im: "int_mask c = push_bit p (mask (k - p))"
    using pk by (simp add: c int_mask_push_bit)
  have tI: "I AND mask (k - p) = I"
    using I by (simp add: take_bit_int_eq_self flip: take_bit_eq_mask)
  have iv: "\<lfloor>\<bar>r1\<bar>\<rfloor> AND drop_bit p (int_mask c) = I"
    by (simp add: r1_pos fl im tI drop_bit_push_bit)
  have d0: "\<lfloor>(\<bar>r1\<bar> - of_int \<lfloor>\<bar>r1\<bar>\<rfloor>) / dec_step c\<rfloor> = F"
    by (simp add: r1_pos fl c(4)) (simp add: r1_eq)
  have X: "push_bit p I AND int_mask c = push_bit p I"
    unfolding im by (simp add: tI flip: push_bit_and)
  have val: "of_int I + of_int F * dec_step c = r1"
    by (simp add: r1_eq c(4))
  have d1: "(if F > dec_mask c then dec_mask c else F) = F"
    using F by (simp add: c(3))
  have st: "dec_step c \<noteq> 0"
    by (simp add: c(4))
  note form = real2fix_int_form[OF st ok, folded r1_def, unfolded iv d0 d1 val c(1) X]
  then show ?thesis
    using st by (simp add: c(4))
qed

lemma decode_parts:
  assumes g: "get_conv b p sg 1 = Inr c" and pb: "p < b"
  defines "k \<equiv> (if sg then b - 1 else b)"
  shows "fix2real raw c =
     Inr ((if sg \<and> bit raw (b - 1) then - (2 ^ (k - p)) else 0)
          + of_int (take_bit (k - p) (drop_bit p raw)) + of_int (take_bit p raw) / 2 ^ p)"
proof -
  note f = get_conv_fields[OF g]
  have pk: "p \<le> k"
    using pb by (auto simp: k_def)
  have im: "int_mask c = push_bit p (mask (k - p))"
    using pk by (simp add: f k_def sum_pow2_push_bit)
  have 1: "drop_bit p (raw AND int_mask c) = take_bit (k - p) (drop_bit p raw)"
    by (simp add: im take_bit_eq_mask drop_bit_push_bit)
  have 2: "raw AND dec_mask c = take_bit p raw"
    by (simp add: f take_bit_eq_mask)
  have 3: "int_min c = (if sg then - (2 ^ (k - p)) else 0)"
    using pb by (auto simp: f k_def power_int_def nat_diff_distrib')
  show ?thesis
    by (simp add: fix2real_def Let_def f(2,3,4,5) 1 2 3 f(8) sign_test del: drop_bit_and)
qed

lemma take_bit_split:
  fixes x :: int
  assumes "p \<le> k"
  shows "push_bit p (take_bit (k - p) (drop_bit p x)) + take_bit p x = take_bit k x"
proof -
  have "(2::int) ^ k = 2 ^ p * 2 ^ (k - p)"
    using assms by (simp flip: power_add)
  then have "x mod 2 ^ k = 2 ^ p * (x div 2 ^ p mod 2 ^ (k - p)) + x mod 2 ^ p"
    by (simp add: zmod_zmult2_eq)
  then show ?thesis
    by (simp add: take_bit_eq_mod drop_bit_eq_div push_bit_eq_mult)
qed

lemma top_bit_split:
  fixes x :: int
  assumes "0 \<le> x" and "x < 2 ^ Suc k"
  shows "(if bit x k then 2 ^ k else 0) + take_bit k x = x"
proof -
  have "take_bit (Suc k) x = x"
    using assms by (rule take_bit_int_eq_self)
  then show ?thesis
    using take_bit_Suc_from_most[of k x] by (cases "bit x k") simp_all
qed

text \<open>
  C1, as amended. On a descriptor of \<open>get_conv\<close> with \<open>bin_point < bits\<close> and scaling 1, every
  raw value \<open>0 \<le> raw < 2 ^ bits\<close> is decoded and encoded back to itself exactly, so no deviation
  occurs at any value.
\<close>

theorem round_trip_exact:
  assumes g: "get_conv b p sg 1 = Inr c" and pb: "p < b"
    and raw: "0 \<le> raw" "raw < 2 ^ b"
  shows "round_trip raw c = Inr (of_int raw)"
proof -
  note f = get_conv_fields[OF g]
  define k where "k = (if sg then b - 1 else b)"
  define I where "I = take_bit (k - p) (drop_bit p raw)"
  define F where "F = take_bit p raw"
  define v where "v = (if sg \<and> bit raw (b - 1) then - (2 ^ (k - p)) else 0)
      + real_of_int I + real_of_int F / 2 ^ p"
  have pk: "p \<le> k"
    using pb by (auto simp: k_def)
  have dec: "fix2real raw c = Inr v"
    unfolding v_def I_def F_def k_def by (rule decode_parts[OF g pb])
  have I: "0 \<le> I" "I < 2 ^ (k - p)"
    by (simp_all add: I_def)
  have F: "0 \<le> F" "F < 2 ^ p"
    by (simp_all add: F_def)
  have fr: "0 \<le> real_of_int F / 2 ^ p" "real_of_int F / 2 ^ p < 1"
    using F by simp_all
  have sum: "push_bit p I + F = take_bit k raw"
    unfolding I_def F_def by (rule take_bit_split[OF pk])
  have cf: "bin_point c = p" "int_mask c = 2 ^ k - 2 ^ p" "dec_mask c = 2 ^ p - 1"
    "dec_step c = 1 / 2 ^ p"
    using pk by (simp_all add: f k_def sum_pow2_eq mask_eq_exp_minus_1)
  have enc: "real2fix v c = Inr (of_int raw)"
  proof (cases "sg \<and> bit raw (b - 1)")
    case True
    then have kb: "k = b - 1" and b: "b = Suc k"
      using pb by (simp_all add: k_def)
    have "I + 1 \<le> 2 ^ (k - p)"
      using I(2) by simp
    then have "real_of_int (I + 1) \<le> real_of_int (2 ^ (k - p))"
      by (simp only: of_int_le_iff)
    then have "real_of_int I + 1 \<le> 2 ^ (k - p)"
      by simp
    moreover have "v = - (2 ^ (k - p)) + real_of_int I + real_of_int F / 2 ^ p"
      using True by (simp add: v_def)
    ultimately have neg: "v < 0"
      using fr(2) by linarith
    have mn: "int_min c = - (2 ^ (k - p))"
      using True pb by (auto simp: f kb power_int_def nat_diff_distrib')
    have r1: "(if v < 0 then v - int_min c else v) = of_int I + of_int F / 2 ^ p"
      using neg True by (simp add: mn v_def)
    have sc: "signed c \<or> 0 \<le> v"
      using True by (simp add: f)
    have "real2fix v c = Inr (of_int (sign_mask c + push_bit p I + F))"
      using encode_core[OF sc r1 I F pk cf] neg by simp
    moreover have "sign_mask c = 2 ^ k"
      using True by (simp add: f kb)
    moreover have "2 ^ k + take_bit k raw = raw"
      using top_bit_split[of raw k] raw True by (simp add: b)
    ultimately show ?thesis
      using sum by (simp add: add.assoc)
  next
    case False
    then have v: "v = of_int I + of_int F / 2 ^ p"
      by (simp add: v_def)
    then have pos: "0 \<le> v"
      using I(1) fr(1) by simp
    have r1: "(if v < 0 then v - int_min c else v) = of_int I + of_int F / 2 ^ p"
      using pos v by simp
    have "real2fix v c = Inr (of_int (push_bit p I + F))"
      using encode_core[OF _ r1 I F pk cf] pos by simp
    moreover have "take_bit k raw = raw"
    proof (cases sg)
      case True
      then have b: "b = Suc k" and nb: "\<not> bit raw k"
        using pb False by (simp_all add: k_def)
      show ?thesis
        using top_bit_split[of raw k] raw nb by (simp add: b)
    next
      case False
      then show ?thesis
        using raw by (simp add: k_def take_bit_int_eq_self)
    qed
    ultimately show ?thesis
      using sum by simp
  qed
  show ?thesis
    by (simp add: round_trip_def dec enc)
qed

theorem round_trip_exact_witness:
  "get_conv 8 7 True 1 = Inr (projr (get_conv 8 7 True 1)) \<and> (7::nat) < 8
   \<and> (0::int) \<le> 129 \<and> (129::int) < 2 ^ 8
   \<and> round_trip 129 (projr (get_conv 8 7 True 1)) = Inr (of_int 129)
   \<and> fix2real 129 (projr (get_conv 8 7 True 1)) = Inr (- 0.9921875)"
proof -
  have g: "get_conv 8 7 True 1 = Inr (projr (get_conv 8 7 True 1))"
    by (simp add: get_conv_def)
  have d: "fix2real 129 (projr (get_conv 8 7 True 1)) = Inr (- 0.9921875)"
    by (simp add: get_conv_def get_signed_params_def fix2real_def sum_pow2_eq sum_pow2_empty)
  show ?thesis
    using g d round_trip_exact[OF g, of 129] by simp
qed

text \<open>
  The claim as stated fails for a scaling other than 1, which \<open>fix2real\<close> divides by and
  \<open>real2fix\<close> ignores: with scaling 2 and \<open>dec_step = 1\<close> the raw value 255 decodes to 127.5
  and is encoded as 127.
\<close>

theorem round_trip_scaling_counterexample:
  "get_conv 8 0 False 2 = Inr (projr (get_conv 8 0 False 2))
   \<and> fix2real 255 (projr (get_conv 8 0 False 2)) = Inr (255 / 2)
   \<and> round_trip 255 (projr (get_conv 8 0 False 2)) = Inr 127
   \<and> dec_step (projr (get_conv 8 0 False 2)) = 1"
  by (simp add: get_conv_def get_unsigned_params_def round_trip_def fix2real_def real2fix_def
      sum_pow2_eq)

end
